theory Spec2Isabelle
  imports
    Main
    "HOL-Library.Char_ord"
    "HOL-Library.List_Lexorder"
    "HOL-Library.AList"
    "HOL-Library.Sublist"
    "HOL-Library.Multiset"
begin

section \<open>Conventions\<close>

text \<open>
  A JavaScript string is modelled as an Isabelle \<open>string\<close>. Every regular expression and
  path function of the program inspects ASCII characters only, and the manifest paths it
  extracts are ASCII, so the default \<open>sort()\<close> of JavaScript (by code unit) is the
  lexicographic order on \<open>string\<close>. A \<open>Map\<close> is an association list in insertion order:
  \<open>Map.set\<close> is \<open>AList.update\<close> (an existing key keeps its place, a new key goes last).
  A thrown exception is the \<open>Inl\<close> branch of a sum.
\<close>

datatype fs_error = EBUSY | EPERM | ENOENT | EIO

datatype error =
    ReaddirFailed
  | TooFewVersions
  | VersionNotFound
  | NoOlderVersion
  | OpenFailed string
  | WriteFailed
  | ReadFailed string
  | UnlinkFailed string
  | EmptyGroup
  | AlwaysBusy
  | Fs fs_error

section \<open>compare.ts: the manifest diff\<close>

subsection \<open>Character classes of the regular expressions\<close>

definition isDigit :: "char \<Rightarrow> bool" where
  "isDigit c = (c \<in> set ''0123456789'')"

definition isAlpha :: "char \<Rightarrow> bool" where
  "isAlpha c = (c \<in> set ''ABCDEFGHIJKLMNOPQRSTUVWXYZabcdefghijklmnopqrstuvwxyz'')"

definition isAlnum :: "char \<Rightarrow> bool" where
  "isAlnum c = (isAlpha c \<or> isDigit c)"

definition isHex :: "char \<Rightarrow> bool" where
  "isHex c = (c \<in> set ''abcdefABCDEF0123456789'')"

text \<open>The class \<^verbatim>\<open>[A-Za-z0-9_\-./]\<close>.\<close>

definition isPathChar :: "char \<Rightarrow> bool" where
  "isPathChar c = (isAlnum c \<or> c \<in> set ''_-./'')"

subsection \<open>extractPathAndHash\<close>

text \<open>\<^verbatim>\<open>/@([a-fA-F0-9]{64})/\<close> anchored at the head of \<open>s\<close>: the captured group.\<close>

definition hashAt :: "string \<Rightarrow> string option" where
  "hashAt s =
     (case s of
        [] \<Rightarrow> None
      | c # cs \<Rightarrow>
          if c = CHR ''@'' \<and> 64 \<le> length cs \<and> list_all isHex (take 64 cs)
          then Some (take 64 cs) else None)"

text \<open>\<open>line.match\<close>: the leftmost position where the pattern matches (\<open>hashMatch.index\<close>)
  and the captured hash.\<close>

fun hashMatch :: "string \<Rightarrow> (nat \<times> string) option" where
  "hashMatch [] = None"
| "hashMatch (c # cs) =
     (case hashAt (c # cs) of
        Some h \<Rightarrow> Some (0, h)
      | None \<Rightarrow> (case hashMatch cs of None \<Rightarrow> None | Some (i, h) \<Rightarrow> Some (Suc i, h)))"

text \<open>
  \<^verbatim>\<open>/[A-Za-z][A-Za-z0-9_\-./]*[A-Za-z0-9]/\<close> anchored at the head of \<open>s\<close>. The star is
  greedy: it takes the whole run of class characters and then gives characters back until
  the one that follows is a letter or a digit; with no letter or digit in the run there is
  no match here.
\<close>

definition pathAt :: "string \<Rightarrow> string option" where
  "pathAt s =
     (case s of
        [] \<Rightarrow> None
      | c # cs \<Rightarrow>
          if isAlpha c then
            (let run = takeWhile isPathChar cs;
                 kept = rev (dropWhile (\<lambda>x. \<not> isAlnum x) (rev run))
             in if kept = [] then None else Some (c # kept))
          else None)"

text \<open>\<open>matchAll\<close> with the \<open>g\<close> flag: scan from the left; after a match the scan goes on
  behind it (a match \<open>t\<close> at \<open>c # cs\<close> has the head \<open>c\<close>, so what is left is
  \<open>drop (length t - 1) cs\<close>).\<close>

fun matchAll :: "string \<Rightarrow> string list" where
  "matchAll [] = []"
| "matchAll (c # cs) =
     (case pathAt (c # cs) of
        None \<Rightarrow> matchAll cs
      | Some t \<Rightarrow> t # matchAll (drop (length t - 1) cs))"

definition extractPathAndHash :: "string \<Rightarrow> (string \<times> string) option" where
  "extractPathAndHash line =
     (case hashMatch line of
        None \<Rightarrow> None
      | Some (hashPos, hashValue) \<Rightarrow>
          (let validPart = take hashPos line;
               matches = matchAll validPart
           in if matches = [] then None else Some (last matches, hashValue)))"

subsection \<open>readFileToAssetMap\<close>

type_synonym AssetMap = "(string \<times> string) list"

definition keys :: "AssetMap \<Rightarrow> string list" where
  "keys m = map fst m"

definition has :: "AssetMap \<Rightarrow> string \<Rightarrow> bool" where
  "has m p = (map_of m p \<noteq> None)"

definition get :: "AssetMap \<Rightarrow> string \<Rightarrow> string option" where
  "get m p = map_of m p"

text \<open>The body of the \<open>for await\<close> loop, folded over the lines that \<open>readline\<close> yields.\<close>

definition parseLines :: "string list \<Rightarrow> AssetMap" where
  "parseLines ls =
     foldl (\<lambda>data line.
              case extractPathAndHash line of
                None \<Rightarrow> data
              | Some (p, h) \<Rightarrow> AList.update p h data) [] ls"

text \<open>
  The directory \<open>AssetBundleInfo\<close> as the comparison sees it: the listing \<open>readdir\<close> returns
  (\<open>None\<close> when it throws), each file as the list of its lines (\<open>None\<close> when \<open>fs.open\<close>
  throws), and whether the output directory and file can be written.
\<close>

record manifest_dir =
  listing :: "string list option"
  lines_of :: "string \<Rightarrow> string list option"
  out_writable :: bool

definition readFileToAssetMap :: "manifest_dir \<Rightarrow> string \<Rightarrow> error + AssetMap" where
  "readFileToAssetMap d fileName =
     (case lines_of d fileName of
        None \<Rightarrow> Inl (OpenFailed fileName)
      | Some ls \<Rightarrow> Inr (parseLines ls))"

subsection \<open>Version files\<close>

fun splitOn :: "char \<Rightarrow> string \<Rightarrow> string list" where
  "splitOn sep [] = [[]]"
| "splitOn sep (c # cs) =
     (if c = sep then [] # splitOn sep cs
      else (case splitOn sep cs of [] \<Rightarrow> [[c]] | p # ps \<Rightarrow> (c # p) # ps))"

definition endsWith :: "string \<Rightarrow> string \<Rightarrow> bool" where
  "endsWith s suf = (length suf \<le> length s \<and> drop (length s - length suf) s = suf)"

definition startsWith :: "string \<Rightarrow> string \<Rightarrow> bool" where
  "startsWith s pre = (take (length pre) s = pre)"

text \<open>\<^verbatim>\<open>\d+\.\d+\.\d+\.\d+\<close> against the whole of \<open>v\<close>.\<close>

definition isVersion4 :: "string \<Rightarrow> bool" where
  "isVersion4 v =
     (let parts = splitOn CHR ''.'' v
      in length parts = 4 \<and> list_all (\<lambda>p. p \<noteq> [] \<and> list_all isDigit p) parts)"

text \<open>\<^verbatim>\<open>/^AssetBundleInfo_(\d+\.\d+\.\d+\.\d+)\.txt$/\<close>: the base version; \<open>extraNum\<close> is
  always 1 here, so \<open>formatVersion\<close> returns the base version.\<close>

definition extractVersionFromFilename :: "string \<Rightarrow> string option" where
  "extractVersionFromFilename name =
     (if startsWith name ''AssetBundleInfo_'' \<and> endsWith name ''.txt'' \<and> 20 \<le> length name
      then (let v = take (length name - 20) (drop 16 name)
            in if isVersion4 v then Some v else None)
      else None)"

definition digitVal :: "char \<Rightarrow> nat" where
  "digitVal c = of_char c - 48"

text \<open>\<open>Number\<close> and \<open>parseInt(_, 10)\<close> on a string of decimal digits (exact as long as the
  value is below \<open>2 ^ 53\<close>, where a JavaScript number holds every integer).\<close>

definition Number :: "string \<Rightarrow> nat" where
  "Number s = foldl (\<lambda>n c. 10 * n + digitVal c) 0 s"

definition versionKey :: "string \<Rightarrow> nat list" where
  "versionKey baseVer = map Number (splitOn CHR ''.'' baseVer)"

record VersionFile =
  fileName :: string
  versionKeyOf :: "nat list"
  formattedVersion :: string

text \<open>The comparator given to \<open>versionFiles.sort\<close>: the first differing component decides;
  a component missing in \<open>b\<close> is \<open>undefined\<close>, the difference is \<open>NaN\<close>, which \<open>sort\<close>
  treats as 0.\<close>

fun keyCompare :: "nat list \<Rightarrow> nat list \<Rightarrow> int" where
  "keyCompare [] _ = 0"
| "keyCompare (x # xs) [] = 0"
| "keyCompare (x # xs) (y # ys) = (if x \<noteq> y then int x - int y else keyCompare xs ys)"

text \<open>\<open>Array.prototype.sort\<close> with a comparator is stable; it is modelled as the stable
  insertion sort: each element goes behind every element that is not greater.\<close>

fun insertBy :: "('a \<Rightarrow> 'a \<Rightarrow> int) \<Rightarrow> 'a \<Rightarrow> 'a list \<Rightarrow> 'a list" where
  "insertBy cmp x [] = [x]"
| "insertBy cmp x (y # ys) = (if cmp x y < 0 then x # y # ys else y # insertBy cmp x ys)"

definition sortBy :: "('a \<Rightarrow> 'a \<Rightarrow> int) \<Rightarrow> 'a list \<Rightarrow> 'a list" where
  "sortBy cmp xs = foldl (\<lambda>acc x. insertBy cmp x acc) [] xs"

fun findIndex :: "('a \<Rightarrow> bool) \<Rightarrow> 'a list \<Rightarrow> nat option" where
  "findIndex P [] = None"
| "findIndex P (x # xs) =
     (if P x then Some 0 else (case findIndex P xs of None \<Rightarrow> None | Some i \<Rightarrow> Some (Suc i)))"

subsection \<open>compareVersions\<close>

text \<open>Lines 113 and 114: the two lists of the diff.\<close>

definition added :: "AssetMap \<Rightarrow> AssetMap \<Rightarrow> string list" where
  "added oldMap newMap = sort (filter (\<lambda>p. \<not> has oldMap p) (keys newMap))"

definition changed :: "AssetMap \<Rightarrow> AssetMap \<Rightarrow> string list" where
  "changed oldMap newMap =
     sort (filter (\<lambda>p. has oldMap p \<and> get newMap p \<noteq> get oldMap p) (keys newMap))"

record compare_result =
  outFile :: string
  result_new :: "string list"
  result_change :: "string list"
  summary_added :: nat
  summary_changed :: nat
  verOld :: string
  verNew :: string

definition versionFilesOf :: "string list \<Rightarrow> VersionFile list" where
  "versionFilesOf filesInDir =
     List.map_filter (\<lambda>f.
        case extractVersionFromFilename f of
          None \<Rightarrow> None
        | Some v \<Rightarrow> Some \<lparr>fileName = f, versionKeyOf = versionKey v, formattedVersion = v\<rparr>)
       (filter (\<lambda>f. endsWith f ''.txt'') filesInDir)"

text \<open>The choice of the two files: the last two of the sorted list, or the file of the
  target version and the one before it. An empty target string is falsy, as \<open>undefined\<close>.\<close>

definition selectVersions ::
  "VersionFile list \<Rightarrow> string option \<Rightarrow> error + (VersionFile \<times> VersionFile)" where
  "selectVersions versionFiles targetVersion =
     (if length versionFiles < 2 then Inl TooFewVersions
      else
        (let sorted = sortBy (\<lambda>a b. keyCompare (versionKeyOf a) (versionKeyOf b)) versionFiles
         in if targetVersion = None \<or> targetVersion = Some []
            then Inr (last sorted, last (butlast sorted))
            else (case findIndex (\<lambda>v. Some (formattedVersion v) = targetVersion) sorted of
                    None \<Rightarrow> Inl VersionNotFound
                  | Some 0 \<Rightarrow> Inl NoOlderVersion
                  | Some (Suc i) \<Rightarrow> Inr (sorted ! Suc i, sorted ! i))))"

definition compareVersions :: "manifest_dir \<Rightarrow> string option \<Rightarrow> error + compare_result" where
  "compareVersions d targetVersion =
     (case listing d of
        None \<Rightarrow> Inl ReaddirFailed
      | Some filesInDir \<Rightarrow>
          (case selectVersions (versionFilesOf filesInDir) targetVersion of
             Inl e \<Rightarrow> Inl e
           | Inr (newestFile, olderFile) \<Rightarrow>
               (case readFileToAssetMap d (fileName olderFile) of
                  Inl e \<Rightarrow> Inl e
                | Inr oldMap \<Rightarrow>
                    (case readFileToAssetMap d (fileName newestFile) of
                       Inl e \<Rightarrow> Inl e
                     | Inr newMap \<Rightarrow>
                         if \<not> out_writable d then Inl WriteFailed
                         else Inr \<lparr>outFile = ''compare/diff_'' @ formattedVersion olderFile
                                               @ ''_to_'' @ formattedVersion newestFile @ ''.json'',
                                   result_new = added oldMap newMap,
                                   result_change = changed oldMap newMap,
                                   summary_added = length (added oldMap newMap),
                                   summary_changed = length (changed oldMap newMap),
                                   verOld = formattedVersion olderFile,
                                   verNew = formattedVersion newestFile\<rparr>))))"

subsection \<open>Notions of the specification, for comparison with the code\<close>

text \<open>A path-like token: a letter, then class characters, then a letter or a digit; at
  least two characters, as the regular expression demands.\<close>

definition isPathToken :: "string \<Rightarrow> bool" where
  "isPathToken t =
     (2 \<le> length t \<and> isAlpha (hd t) \<and> isAlnum (last t) \<and> list_all isPathChar t)"

subsection \<open>Example inputs\<close>

definition hashA :: string where
  "hashA = ''0123456789abcdef0123456789ABCDEF0123456789abcdef0123456789ABCDEF''"

definition hashB :: string where
  "hashB = ''ffffffffffffffffffffffffffffffff00000000000000000000000000000000''"

definition exampleLine :: string where
  "exampleLine = ''12 foo bar/baz.png @'' @ hashA @ ''0 tail''"

text \<open>Two version files; the older one holds no line with a hash.\<close>

definition exampleDir :: manifest_dir where
  "exampleDir =
     \<lparr>listing = Some [''AssetBundleInfo_9.3.0.170.txt'', ''notes.txt'',
                       ''AssetBundleInfo_9.3.0.20.txt''],
      lines_of = (\<lambda>f. if f = ''AssetBundleInfo_9.3.0.170.txt''
                        then Some [''z.bin @'' @ hashA, ''y.bin @'' @ hashB]
                      else if f = ''AssetBundleInfo_9.3.0.20.txt''
                        then Some [''not a manifest'', [], ''x.bin @1234'']
                      else None),
      out_writable = True\<rparr>"

section \<open>getAssets.ts: the fetcher\<close>

subsection \<open>path.join\<close>

text \<open>
  \<open>path.join\<close> and \<open>path.normalize\<close> as Node implements them for POSIX paths. The joined
  string is cut at \<open>/\<close>; \<open>normalizeString\<close> walks the segments with a stack: an empty
  segment and \<open>.\<close> are skipped, \<open>..\<close> removes the last segment of the stack unless that is
  \<open>..\<close> or the stack is empty, and is then kept only when the path is relative.
\<close>

definition normStep :: "bool \<Rightarrow> string list \<Rightarrow> string \<Rightarrow> string list" where
  "normStep allowAboveRoot res seg =
     (if seg = [] \<or> seg = ''.'' then res
      else if seg = ''..'' then
        (if res \<noteq> [] \<and> last res \<noteq> ''..'' then butlast res
         else if allowAboveRoot then res @ [''..''] else res)
      else res @ [seg])"

definition normSegs :: "bool \<Rightarrow> string list \<Rightarrow> string list" where
  "normSegs allowAboveRoot segs = foldl (normStep allowAboveRoot) [] segs"

fun joinSegs :: "string list \<Rightarrow> string" where
  "joinSegs [] = []"
| "joinSegs [s] = s"
| "joinSegs (s # t # ts) = s @ CHR ''/'' # joinSegs (t # ts)"

definition isAbsolute :: "string \<Rightarrow> bool" where
  "isAbsolute p = (p \<noteq> [] \<and> hd p = CHR ''/'')"

text \<open>The segments a path resolves to.\<close>

definition resolved :: "string \<Rightarrow> string list" where
  "resolved p = normSegs (\<not> isAbsolute p) (splitOn CHR ''/'' p)"

definition path_normalize :: "string \<Rightarrow> string" where
  "path_normalize p =
     (if p = [] then ''.''
      else
        (let trailingSeparator = (last p = CHR ''/'');
             res = joinSegs (resolved p)
         in if res = [] then
              (if isAbsolute p then ''/'' else if trailingSeparator then ''./'' else ''.'')
            else (if isAbsolute p then ''/'' else []) @ res
                 @ (if trailingSeparator then ''/'' else [])))"

definition path_join :: "string \<Rightarrow> string \<Rightarrow> string" where
  "path_join a b =
     (let joined = (if a = [] then b else if b = [] then a else a @ CHR ''/'' # b)
      in if joined = [] then ''.'' else path_normalize joined)"

text \<open>What the stack of \<open>normalizeString\<close> looks like: no empty segment and no \<open>.\<close>, every
  \<open>..\<close> at the front, and no \<open>..\<close> at all unless the path is relative.\<close>

fun dotsThen :: "string list \<Rightarrow> bool" where
  "dotsThen [] = True"
| "dotsThen (s # ss) = (if s = ''..'' then dotsThen ss else ''..'' \<notin> set ss)"

definition good :: "bool \<Rightarrow> string list \<Rightarrow> bool" where
  "good allow xs = ((\<forall>s\<in>set xs. s \<noteq> [] \<and> s \<noteq> ''.'') \<and> dotsThen xs \<and> (\<not> allow \<longrightarrow> ''..'' \<notin> set xs))"

subsection \<open>downloadFile\<close>

definition PER_FILE_RETRIES :: nat where
  "PER_FILE_RETRIES = 3"

definition PER_FILE_BACKOFF_SECONDS :: nat where
  "PER_FILE_BACKOFF_SECONDS = 1"

text \<open>
  What one pass through the \<open>try\<close> block can do, as the \<open>catch\<close> block tells the cases
  apart: \<open>mkdir\<close> throws; the request is rejected, with the status of \<open>e.response\<close> if there
  is one; the response arrives and the write stream, opened at \<open>savePath\<close> itself, reports an
  error, leaving at \<open>savePath\<close> what it had written (\<open>None\<close>: the file was never created);
  or the write stream finishes with the whole body.
\<close>

datatype attempt =
    MkdirFailed
  | RequestFailed "nat option"
  | WriterFailed "string option"
  | Finished string

datatype event = Attempt string | Sleep nat

text \<open>The files by path, and the trace of attempts (by URL) and of waits (in milliseconds).
  Directories are not modelled.\<close>

record dl_state =
  files :: "string \<Rightarrow> string option"
  trace :: "event list"

text \<open>The network: the outcome of the \<open>n\<close>-th attempt (from 1) of one call for a URL.\<close>

type_synonym network = "string \<Rightarrow> nat \<Rightarrow> attempt"

text \<open>The \<open>while\<close> loop of \<open>downloadFile\<close>, with its variables \<open>attempt\<close> and \<open>backoff\<close>.\<close>

function downloadLoop ::
  "network \<Rightarrow> string \<Rightarrow> string \<Rightarrow> nat \<Rightarrow> nat \<Rightarrow> dl_state \<Rightarrow> bool \<times> dl_state" where
  "downloadLoop net url savePath attempt backoff st =
     (if attempt < PER_FILE_RETRIES then
        (let attempt' = attempt + 1;
             retry = (\<lambda>s. if attempt' < PER_FILE_RETRIES
                           then downloadLoop net url savePath attempt' (backoff * 2)
                                  (s\<lparr>trace := trace s @ [Sleep (backoff * 1000)]\<rparr>)
                           else downloadLoop net url savePath attempt' backoff s);
             st1 = st\<lparr>trace := trace st @ [Attempt url]\<rparr>
         in case net url attempt' of
              MkdirFailed \<Rightarrow> retry st1
            | RequestFailed status \<Rightarrow>
                if status = Some 403 \<or> status = Some 404 then (False, st1) else retry st1
            | WriterFailed left \<Rightarrow> retry (st1\<lparr>files := (files st1)(savePath := left)\<rparr>)
            | Finished body \<Rightarrow> (True, st1\<lparr>files := (files st1)(savePath \<mapsto> body)\<rparr>))
      else (False, st))"
  by pat_completeness auto
termination
  by (relation "measure (\<lambda>(net, url, savePath, attempt, backoff, st). PER_FILE_RETRIES - attempt)")
     auto

definition cleanPathOf :: "string \<Rightarrow> string" where
  "cleanPathOf assetPath = (if startsWith assetPath ''/'' then drop 1 assetPath else assetPath)"

definition savePathOf :: "string \<Rightarrow> string \<Rightarrow> string" where
  "savePathOf saveRoot assetPath = path_join saveRoot (cleanPathOf assetPath)"

definition downloadFile ::
  "network \<Rightarrow> string \<Rightarrow> string \<Rightarrow> string \<Rightarrow> dl_state \<Rightarrow> bool \<times> dl_state" where
  "downloadFile net baseUrl saveRoot assetPath st =
     (let cleanPath = cleanPathOf assetPath;
          url = baseUrl @ cleanPath;
          savePath = path_join saveRoot cleanPath
      in if files st savePath \<noteq> None then (True, st)
         else downloadLoop net url savePath 0 PER_FILE_BACKOFF_SECONDS st)"

subsection \<open>downloadDiffAssets\<close>

text \<open>\<open>url.split("/AssetBundleInfo")[0] + "/"\<close>.\<close>

fun beforeFirst :: "string \<Rightarrow> string \<Rightarrow> string" where
  "beforeFirst sep [] = []"
| "beforeFirst sep (c # cs) = (if startsWith (c # cs) sep then [] else c # beforeFirst sep cs)"

definition extractPrefix :: "string \<Rightarrow> string" where
  "extractPrefix url = beforeFirst ''/AssetBundleInfo'' url @ ''/''"

text \<open>The tasks run under \<open>pLimit\<close>; each has its own URL and destination, so they are
  modelled in the order of the list. The result is the list of the booleans.\<close>

fun runTasks ::
  "network \<Rightarrow> (string \<times> string \<times> string) list \<Rightarrow> dl_state \<Rightarrow> bool list \<times> dl_state" where
  "runTasks net [] st = ([], st)"
| "runTasks net ((baseUrl, saveRoot, f) # ts) st =
     (let (ok, st1) = downloadFile net baseUrl saveRoot f st;
          (oks, st2) = runTasks net ts st1
      in (ok # oks, st2))"

text \<open>
  \<open>downloadDiffAssets\<close> from line 158 on, given what the lines before it read: the URLs of
  the two versions in the URL map, the root \<open>analysing/<newVersion>\<close> and the two lists of the
  diff file. It returns \<open>Promise<void>\<close>: the booleans of \<open>Promise.all\<close> are dropped, and
  what the caller can observe is the state.
\<close>

definition downloadDiffAssets ::
  "network \<Rightarrow> string \<Rightarrow> string \<Rightarrow> string \<Rightarrow> string list \<Rightarrow> string list \<Rightarrow> dl_state
     \<Rightarrow> dl_state" where
  "downloadDiffAssets net urlNew urlOld newRoot diffNew diffChange st =
     (let baseUrlNew = extractPrefix urlNew;
          baseUrlOld = extractPrefix urlOld;
          dirNew = path_join newRoot ''new'';
          dirChange = path_join newRoot ''change'';
          dirChangeOld = path_join newRoot ''change_old'';
          tasks = map (\<lambda>f. (baseUrlNew, dirNew, f)) diffNew
                  @ map (\<lambda>f. (baseUrlNew, dirChange, f)) diffChange
                  @ map (\<lambda>f. (baseUrlOld, dirChangeOld, f)) diffChange
      in snd (runTasks net tasks st))"

subsection \<open>The other entry point of the fetcher (the variant that reads a flat list)\<close>

text \<open>Its \<open>downloadFile\<close> has the same loop and no check for an existing file.\<close>

definition downloadFile_flat ::
  "network \<Rightarrow> string \<Rightarrow> string \<Rightarrow> string \<Rightarrow> dl_state \<Rightarrow> bool \<times> dl_state" where
  "downloadFile_flat net baseUrl saveRoot assetPath st =
     (let cleanPath = cleanPathOf assetPath
      in downloadLoop net (baseUrl @ cleanPath) (path_join saveRoot cleanPath)
           0 PER_FILE_BACKOFF_SECONDS st)"

fun runTasks_flat ::
  "network \<Rightarrow> string \<Rightarrow> string \<Rightarrow> string list \<Rightarrow> dl_state \<Rightarrow> bool list \<times> dl_state" where
  "runTasks_flat net baseUrl saveRoot [] st = ([], st)"
| "runTasks_flat net baseUrl saveRoot (f # fs) st =
     (let (ok, st1) = downloadFile_flat net baseUrl saveRoot f st;
          (oks, st2) = runTasks_flat net baseUrl saveRoot fs st1
      in (ok # oks, st2))"

text \<open>\<open>failedPaths.join('\n') + '\n'\<close>.\<close>

definition joinLines :: "string list \<Rightarrow> string" where
  "joinLines ps = concat (map (\<lambda>p. p @ [CHR 0x0A]) ps)"

text \<open>The end of its \<open>main\<close>, from the downloads on: the paths whose download returned
  false are written to \<open>failed_downloads_<version>.txt\<close> in the diff directory.\<close>

definition main_flat ::
  "network \<Rightarrow> string \<Rightarrow> string \<Rightarrow> string \<Rightarrow> string \<Rightarrow> string list \<Rightarrow> dl_state \<Rightarrow> dl_state" where
  "main_flat net baseUrl saveRoot diffDir diffVersion assetPaths st =
     (let (results, st1) = runTasks_flat net baseUrl saveRoot assetPaths st;
          failedPaths = map fst (filter (\<lambda>(p, success). \<not> success) (zip assetPaths results))
      in if failedPaths \<noteq> [] then
           st1\<lparr>files := (files st1)
                  (path_join diffDir (''failed_downloads_'' @ diffVersion @ ''.txt'')
                     \<mapsto> joinLines failedPaths)\<rparr>
         else st1)"

subsection \<open>Notions of the specification, for comparison with the code\<close>

text \<open>A failure that is retried: any outcome but a finished download and a 403 or 404.\<close>

definition terminal :: "attempt \<Rightarrow> bool" where
  "terminal a = (a = RequestFailed (Some 403) \<or> a = RequestFailed (Some 404))"






text \<open>A path is inside a root when both are absolute or both relative and the segments the
  root resolves to begin the segments the path resolves to.\<close>

definition insideRoot :: "string \<Rightarrow> string \<Rightarrow> bool" where
  "insideRoot root p = (isAbsolute p = isAbsolute root \<and> prefix (resolved root) (resolved p))"

subsection \<open>Example inputs\<close>

definition emptyDisk :: dl_state where
  "emptyDisk = \<lparr>files = (\<lambda>p. None), trace = []\<rparr>"


text \<open>A network that answers 404 on the first attempt for every URL.\<close>

definition notFound :: network where
  "notFound = (\<lambda>url n. RequestFailed (Some 404))"


section \<open>mergeBytes.ts: joining the segments of \<open>.bytes\<close> files\<close>

subsection \<open>Names\<close>







subsection \<open>Files and streams\<close>








subsection \<open>mergeBytesFiles\<close>





subsection \<open>Example inputs\<close>



section \<open>removeUnchangedFiles.ts: reconciling two trees\<close>

subsection \<open>Trees\<close>

text \<open>
  A file has its bytes and, for the retry loops, the errors that the next calls of
  \<open>readFile\<close> and of \<open>unlink\<close> on it will raise before one succeeds. A directory entry is a
  file or a directory with its entries. A path is the list of the entry names from the
  directory that is walked: \<open>path.join(dir, entry.name)\<close> adds a name, and
  \<open>path.relative(root, fullPath)\<close> gives back the names below the root.
\<close>

record finfo =
  fbytes :: string
  read_errors :: "fs_error list"
  unlink_errors :: "fs_error list"

datatype node = File string finfo | Dir string "node list"

type_synonym path = "string list"

fun walk :: "node \<Rightarrow> path list" where
  "walk (File n f) = [[n]]"
| "walk (Dir n cs) = map (\<lambda>p. n # p) (concat (map walk cs))"

definition walkDir :: "node list \<Rightarrow> path list" where
  "walkDir es = concat (map walk es)"

text \<open>The files of a directory, each with its path, in the order of \<open>walkDir\<close>.\<close>

fun entriesOf :: "node \<Rightarrow> (path \<times> finfo) list" where
  "entriesOf (File n f) = [([n], f)]"
| "entriesOf (Dir n cs) = map (\<lambda>e. (n # fst e, snd e)) (concat (map entriesOf cs))"

definition entries :: "node list \<Rightarrow> (path \<times> finfo) list" where
  "entries es = concat (map entriesOf es)"

text \<open>The file at a path.\<close>

definition fileAt :: "node list \<Rightarrow> path \<Rightarrow> finfo option" where
  "fileAt es p = map_of (entries es) p"

text \<open>\<open>unlink\<close> of the file at a path.\<close>

fun unlinkNode :: "path \<Rightarrow> node \<Rightarrow> node list" where
  "unlinkNode [] e = [e]"
| "unlinkNode [s] (File n f) = (if n = s then [] else [File n f])"
| "unlinkNode (s # t # r) (File n f) = [File n f]"
| "unlinkNode [s] (Dir n cs) = [Dir n cs]"
| "unlinkNode (s # t # r) (Dir n cs) =
     (if n = s then [Dir n (concat (map (unlinkNode (t # r)) cs))] else [Dir n cs])"

definition unlinkAt :: "path \<Rightarrow> node list \<Rightarrow> node list" where
  "unlinkAt p es = concat (map (unlinkNode p) es)"

subsection \<open>The retry loops\<close>

definition isBusy :: "fs_error \<Rightarrow> bool" where
  "isBusy e = (e = EBUSY \<or> e = EPERM)"

text \<open>\<open>safeRead\<close>: the loop \<open>while (retry > 0)\<close> over the errors the file will raise.\<close>

fun readRetry :: "fs_error list \<Rightarrow> string \<Rightarrow> nat \<Rightarrow> error + string" where
  "readRetry errs b 0 = Inl AlwaysBusy"
| "readRetry [] b (Suc retry) = Inr b"
| "readRetry (e # errs) b (Suc retry) =
     (if isBusy e then readRetry errs b retry else Inl (Fs e))"

definition safeRead :: "finfo \<Rightarrow> error + string" where
  "safeRead f = readRetry (read_errors f) (fbytes f) 5"

text \<open>\<open>hashFile\<close>; the digest function of \<open>createHash("md5")\<close> is a parameter.\<close>

definition hashFile :: "(string \<Rightarrow> string) \<Rightarrow> finfo \<Rightarrow> error + string" where
  "hashFile md5 f = (case safeRead f of Inl e \<Rightarrow> Inl e | Inr b \<Rightarrow> Inr (md5 b))"

text \<open>\<open>safeDelete\<close>: when the retries are used up it warns and returns, and the file stays.\<close>

datatype unlink_result = Deleted | StillBusy | UnlinkError fs_error

fun deleteRetry :: "fs_error list \<Rightarrow> nat \<Rightarrow> unlink_result" where
  "deleteRetry errs 0 = StillBusy"
| "deleteRetry [] (Suc retry) = Deleted"
| "deleteRetry (e # errs) (Suc retry) =
     (if isBusy e then deleteRetry errs retry else UnlinkError e)"

definition safeDelete :: "finfo \<Rightarrow> unlink_result" where
  "safeDelete f = deleteRetry (unlink_errors f) 5"

subsection \<open>removeEmptyDirs\<close>

text \<open>
  For a directory: whether it counted as empty, and what is left of it (\<open>None\<close> when it was
  removed). An entry that is a file makes \<open>allEmpty\<close> false. Errors of \<open>rmdir\<close> are
  swallowed by the code; here \<open>rmdir\<close> of an empty directory succeeds.
\<close>

fun removeEmptyDirs :: "node \<Rightarrow> bool \<times> node option" where
  "removeEmptyDirs (File n f) = (False, Some (File n f))"
| "removeEmptyDirs (Dir n cs) =
     (if cs = [] then (True, None)
      else
        (let rs = map removeEmptyDirs cs;
             allEmpty = list_all fst rs
         in if allEmpty then (True, None)
            else (False, Some (Dir n (List.map_filter snd rs)))))"

subsection \<open>removeUnchangedFiles\<close>

text \<open>\<open>relativeMap\<close>: from the relative path to the old file; a later \<open>set\<close> of the same key
  replaces an earlier one.\<close>

definition relativeMap :: "node list \<Rightarrow> path \<Rightarrow> finfo option" where
  "relativeMap oldEntries = map_of (rev (entries oldEntries))"

text \<open>
  One task: nothing happens for a path that the old tree lacks; else both files are
  hashed, and the new file is deleted when the hashes are equal. The tasks touch
  different files of the new tree, so they are modelled in the order of the list.
\<close>

definition compareOne ::
  "(string \<Rightarrow> string) \<Rightarrow> node list \<Rightarrow> path \<Rightarrow> node list \<Rightarrow> error + node list" where
  "compareOne md5 oldEntries rel cur =
     (case relativeMap oldEntries rel of
        None \<Rightarrow> Inr cur
      | Some oldFile \<Rightarrow>
          (case hashFile md5 oldFile of
             Inl e \<Rightarrow> Inl e
           | Inr oldHash \<Rightarrow>
               (case fileAt cur rel of
                  None \<Rightarrow> Inl (Fs ENOENT)
                | Some newFile \<Rightarrow>
                    (case hashFile md5 newFile of
                       Inl e \<Rightarrow> Inl e
                     | Inr newHash \<Rightarrow>
                         if oldHash = newHash then
                           (case safeDelete newFile of
                              Deleted \<Rightarrow> Inr (unlinkAt rel cur)
                            | StillBusy \<Rightarrow> Inr cur
                            | UnlinkError e \<Rightarrow> Inl (Fs e))
                         else Inr cur))))"

fun compareAll ::
  "(string \<Rightarrow> string) \<Rightarrow> node list \<Rightarrow> path list \<Rightarrow> node list \<Rightarrow> error + node list" where
  "compareAll md5 oldEntries [] cur = Inr cur"
| "compareAll md5 oldEntries (rel # rels) cur =
     (case compareOne md5 oldEntries rel cur of
        Inl e \<Rightarrow> Inl e
      | Inr cur' \<Rightarrow> compareAll md5 oldEntries rels cur')"

text \<open>
  \<open>removeUnchangedFiles(change_old, change)\<close> on the entries of the two directories. It
  returns \<open>Promise<void>\<close>; what it leaves is the directory \<open>change\<close>, or nothing when
  \<open>removeEmptyDirs\<close> removed it.
\<close>

definition removeUnchangedFiles ::
  "(string \<Rightarrow> string) \<Rightarrow> node list \<Rightarrow> node list \<Rightarrow> error + node list option" where
  "removeUnchangedFiles md5 oldEntries newEntries =
     (case compareAll md5 oldEntries (walkDir newEntries) newEntries of
        Inl e \<Rightarrow> Inl e
      | Inr cur \<Rightarrow>
          (case snd (removeEmptyDirs (Dir ''change'' cur)) of
             Some (Dir n cs) \<Rightarrow> Inr (Some cs)
           | _ \<Rightarrow> Inr None))"

text \<open>The files of what \<open>removeEmptyDirs\<close> leaves of an entry.\<close>

definition entriesLeft :: "node option \<Rightarrow> (path \<times> finfo) list" where
  "entriesLeft r = (case r of None \<Rightarrow> [] | Some e \<Rightarrow> entriesOf e)"

text \<open>The file at a path in what is left of the directory.\<close>

definition fileAfter :: "node list option \<Rightarrow> path \<Rightarrow> finfo option" where
  "fileAfter r p = (case r of None \<Rightarrow> None | Some es \<Rightarrow> fileAt es p)"

subsection \<open>Example inputs\<close>

definition plain :: "string \<Rightarrow> finfo" where
  "plain b = \<lparr>fbytes = b, read_errors = [], unlink_errors = []\<rparr>"

text \<open>A file that stays locked against \<open>unlink\<close> for five tries.\<close>

definition locked :: "string \<Rightarrow> finfo" where
  "locked b = \<lparr>fbytes = b, read_errors = [], unlink_errors = [EBUSY, EBUSY, EBUSY, EBUSY, EBUSY]\<rparr>"

definition oldTree :: "node list" where
  "oldTree = [Dir ''img'' [File ''a.png'' (plain ''same''), File ''b.png'' (plain ''old'')],
              File ''c.txt'' (plain ''text'')]"

definition newTree :: "node list" where
  "newTree = [Dir ''img'' [File ''a.png'' (plain ''same''), File ''b.png'' (plain ''new'')],
              File ''c.txt'' (locked ''text''),
              Dir ''snd'' [File ''d.wav'' (plain ''only new'')]]"

section \<open>Properties\<close>

subsection \<open>The regular expressions\<close>

lemma alnum_pathchar: "isAlnum c \<Longrightarrow> isPathChar c"
  by (simp add: isPathChar_def)

lemma alpha_alnum: "isAlpha c \<Longrightarrow> isAlnum c"
  by (simp add: isAlnum_def)

lemma kept_props:
  assumes "kept = rev (dropWhile (\<lambda>x. \<not> isAlnum x) (rev (takeWhile isPathChar cs)))"
    and "kept \<noteq> []"
  shows "isAlnum (last kept)" and "list_all isPathChar kept" and "prefix kept cs"
proof -
  let ?run = "takeWhile isPathChar cs"
  let ?d = "dropWhile (\<lambda>x. \<not> isAlnum x) (rev ?run)"
  from assms have dne: "?d \<noteq> []" by simp
  then have "\<not> (\<lambda>x. \<not> isAlnum x) (hd ?d)" by (rule hd_dropWhile)
  moreover have "last kept = hd ?d" using assms dne by (simp add: last_rev)
  ultimately show "isAlnum (last kept)" by simp
  have "set ?d \<subseteq> set (rev ?run)" by (rule set_dropWhileD[THEN subsetI])
  then have "set kept \<subseteq> set ?run" using assms by simp
  then show "list_all isPathChar kept"
    by (auto simp: list_all_iff dest: set_takeWhileD)
  have "rev ?run = takeWhile (\<lambda>x. \<not> isAlnum x) (rev ?run) @ ?d" by simp
  then have "?run = rev ?d @ rev (takeWhile (\<lambda>x. \<not> isAlnum x) (rev ?run))"
    by (metis rev_append rev_rev_ident)
  then have "prefix kept ?run" using assms(1) by (metis prefixI)
  moreover have "prefix ?run cs" by (metis takeWhile_dropWhile_id prefixI)
  ultimately show "prefix kept cs" by (rule prefix_order.trans)
qed

lemma pathAt_Some:
  assumes "pathAt s = Some t"
  shows "isPathToken t \<and> prefix t s"
proof (cases s)
  case Nil
  then show ?thesis using assms by (simp add: pathAt_def)
next
  case (Cons c cs)
  define kept where "kept = rev (dropWhile (\<lambda>x. \<not> isAlnum x) (rev (takeWhile isPathChar cs)))"
  from assms Cons have a: "isAlpha c" and k: "kept \<noteq> []" and t: "t = c # kept"
    by (auto simp: pathAt_def Let_def kept_def split: if_splits)
  note kp = kept_props[OF kept_def k]
  show ?thesis using a k t kp Cons
    by (cases kept) (auto simp: isPathToken_def alpha_alnum alnum_pathchar)
qed

lemma pathAt_None:
  assumes "isPathToken t" and "prefix t s"
  shows "pathAt s \<noteq> None"
proof -
  from assms(1) obtain c t' where t: "t = c # t'" and ne: "t' \<noteq> []"
    by (cases t; cases "tl t") (auto simp: isPathToken_def)
  from assms(2) t obtain r where s: "s = c # t' @ r" by (auto simp: prefix_def)
  from assms(1) t ne have a: "isAlpha c" and l: "isAlnum (last t')"
    and all: "list_all isPathChar t'"
    by (auto simp: isPathToken_def)
  have "last t' \<in> set (takeWhile isPathChar (t' @ r))"
    using all ne by (simp add: list_all_iff)
  then have "dropWhile (\<lambda>x. \<not> isAlnum x) (rev (takeWhile isPathChar (t' @ r))) \<noteq> []"
    using l by auto
  then show ?thesis using a s by (simp add: pathAt_def Let_def)
qed

lemma matchAll_Nil_iff: "matchAll s = [] \<longleftrightarrow> \<not> (\<exists>t. isPathToken t \<and> sublist t s)"
proof (induction s)
  case Nil
  then show ?case by (auto simp: isPathToken_def)
next
  case (Cons c cs)
  show ?case
  proof (cases "pathAt (c # cs)")
    case None
    then have "\<And>t. isPathToken t \<Longrightarrow> \<not> prefix t (c # cs)" using pathAt_None by blast
    with None Cons show ?thesis by (auto simp: sublist_Cons_right)
  next
    case (Some t)
    then show ?thesis using pathAt_Some[OF Some] by (auto simp: sublist_Cons_right)
  qed
qed

lemma matchAll_last:
  "matchAll s \<noteq> [] \<Longrightarrow>
     \<exists>pre post. s = pre @ last (matchAll s) @ post
        \<and> isPathToken (last (matchAll s)) \<and> matchAll post = []"
proof (induction s rule: matchAll.induct)
  case 1
  then show ?case by simp
next
  case (2 c cs)
  show ?case
  proof (cases "pathAt (c # cs)")
    case None
    with 2 obtain pre post where "cs = pre @ last (matchAll cs) @ post"
      and "isPathToken (last (matchAll cs))" and "matchAll post = []"
      by auto
    then have "c # cs = (c # pre) @ last (matchAll (c # cs)) @ post
        \<and> isPathToken (last (matchAll (c # cs))) \<and> matchAll post = []"
      using None by simp
    then show ?thesis by blast
  next
    case (Some t)
    let ?rest = "drop (length t - 1) cs"
    from pathAt_Some[OF Some] have tok: "isPathToken t" and pre: "prefix t (c # cs)" by auto
    then have split: "c # cs = t @ ?rest"
      by (cases t) (auto simp: prefix_def isPathToken_def)
    show ?thesis
    proof (cases "matchAll ?rest = []")
      case True
      have "matchAll (c # cs) = [t]" using Some True by simp
      then have "c # cs = [] @ last (matchAll (c # cs)) @ ?rest
          \<and> isPathToken (last (matchAll (c # cs))) \<and> matchAll ?rest = []"
        using split tok True by simp
      then show ?thesis by blast
    next
      case False
      from 2(2)[OF Some False] obtain pre' post where
        "?rest = pre' @ last (matchAll ?rest) @ post"
        and "isPathToken (last (matchAll ?rest))" and "matchAll post = []"
        by auto
      moreover have "last (matchAll (c # cs)) = last (matchAll ?rest)"
        using Some False by simp
      ultimately have "c # cs = (t @ pre') @ last (matchAll (c # cs)) @ post
          \<and> isPathToken (last (matchAll (c # cs))) \<and> matchAll post = []"
        using split by simp
      then show ?thesis by blast
    qed
  qed
qed

lemma hashAt_Some:
  "hashAt s = Some h \<Longrightarrow> \<exists>rest. s = CHR ''@'' # h @ rest \<and> length h = 64 \<and> list_all isHex h"
  by (cases s) (auto simp: hashAt_def split: if_splits intro: append_take_drop_id[symmetric])

lemma hashMatch_Some:
  "hashMatch line = Some (pos, h) \<Longrightarrow>
     \<exists>rest. line = take pos line @ CHR ''@'' # h @ rest \<and> length h = 64 \<and> list_all isHex h"
proof (induction line arbitrary: pos)
  case Nil
  then show ?case by simp
next
  case (Cons c cs)
  show ?case
  proof (cases "hashAt (c # cs)")
    case (Some h')
    with Cons.prems have "pos = 0" and "h' = h" by simp_all
    with hashAt_Some[OF Some] show ?thesis by simp
  next
    case None
    with Cons.prems obtain i where i: "hashMatch cs = Some (i, h)" and pos: "pos = Suc i"
      by (auto split: option.splits)
    from Cons.IH[OF i] obtain rest where "cs = take i cs @ CHR ''@'' # h @ rest"
      and "length h = 64" and "list_all isHex h"
      by blast
    then have "c # cs = take pos (c # cs) @ CHR ''@'' # h @ rest
        \<and> length h = 64 \<and> list_all isHex h"
      using pos by simp
    then show ?thesis by blast
  qed
qed

text \<open>
  C10. On a line with a hash token (the first one at \<open>pos\<close>, with hash \<open>h\<close>, 64 hexadecimal
  digits behind an \<open>@\<close>), \<open>extractPathAndHash\<close> yields no entry exactly when no path-like
  token occurs in the part before the hash; otherwise the entry is the last of the tokens
  that \<open>matchAll\<close> finds in that part, paired with \<open>h\<close>: a path-like token of the part before
  the hash behind which no further path-like token occurs.
\<close>

theorem extractPathAndHash_last_token:
  assumes "hashMatch line = Some (pos, h)"
  shows "(\<exists>rest. line = take pos line @ CHR ''@'' # h @ rest \<and> length h = 64 \<and> list_all isHex h)
       \<and> (extractPathAndHash line = None
            \<longleftrightarrow> \<not> (\<exists>t. isPathToken t \<and> sublist t (take pos line)))
       \<and> (matchAll (take pos line) \<noteq> [] \<longrightarrow>
            extractPathAndHash line = Some (last (matchAll (take pos line)), h))
       \<and> (\<forall>p hv. extractPathAndHash line = Some (p, hv) \<longrightarrow>
            hv = h \<and> isPathToken p
            \<and> (\<exists>pre post. take pos line = pre @ p @ post
                  \<and> \<not> (\<exists>t. isPathToken t \<and> sublist t post)))"
proof -
  let ?v = "take pos line"
  have e: "extractPathAndHash line =
      (if matchAll ?v = [] then None else Some (last (matchAll ?v), h))"
    using assms by (simp add: extractPathAndHash_def Let_def)
  have a: "extractPathAndHash line = None \<longleftrightarrow> \<not> (\<exists>t. isPathToken t \<and> sublist t ?v)"
    using e matchAll_Nil_iff[of ?v] by auto
  have c: "hv = h \<and> isPathToken p
      \<and> (\<exists>pre post. ?v = pre @ p @ post \<and> \<not> (\<exists>t. isPathToken t \<and> sublist t post))"
    if "extractPathAndHash line = Some (p, hv)" for p hv
  proof -
    from that e have ne: "matchAll ?v \<noteq> []" and p: "p = last (matchAll ?v)" and "hv = h"
      by (auto split: if_splits)
    from matchAll_last[OF ne] obtain pre post where "?v = pre @ p @ post"
      and "isPathToken p" and "matchAll post = []"
      using p by auto
    then show ?thesis using \<open>hv = h\<close> matchAll_Nil_iff[of post] by blast
  qed
  have b: "matchAll ?v \<noteq> [] \<longrightarrow> extractPathAndHash line = Some (last (matchAll ?v), h)"
    using e by simp
  have c': "\<forall>p hv. extractPathAndHash line = Some (p, hv) \<longrightarrow>
      hv = h \<and> isPathToken p
      \<and> (\<exists>pre post. ?v = pre @ p @ post \<and> \<not> (\<exists>t. isPathToken t \<and> sublist t post))"
    using c by blast
  note d = hashMatch_Some[OF assms]
  show ?thesis by (rule conjI[OF d conjI[OF a conjI[OF b c']]])
qed

theorem extractPathAndHash_last_token_witness:
  "hashMatch exampleLine = Some (19, hashA)
   \<and> matchAll (take 19 exampleLine) = [''foo'', ''bar/baz.png'']
   \<and> extractPathAndHash exampleLine = Some (''bar/baz.png'', hashA)
   \<and> (\<exists>t. isPathToken t \<and> sublist t (take 19 exampleLine))"
proof -
  have h: "hashMatch exampleLine = Some (19, hashA)" by code_simp
  have m: "matchAll (take 19 exampleLine) = [''foo'', ''bar/baz.png'']" by code_simp
  note t = extractPathAndHash_last_token[OF h]
  from t m have e: "extractPathAndHash exampleLine = Some (''bar/baz.png'', hashA)"
    by simp
  from t have "extractPathAndHash exampleLine = None
      \<longleftrightarrow> \<not> (\<exists>t. isPathToken t \<and> sublist t (take 19 exampleLine))"
    by blast
  with e have "\<exists>t. isPathToken t \<and> sublist t (take 19 exampleLine)" by simp
  with h m e show ?thesis by blast
qed

subsection \<open>The diff\<close>

lemma keys_parseLines_distinct: "distinct (keys (parseLines ls))"
proof -
  have "distinct (map fst acc) \<Longrightarrow>
        distinct (map fst (foldl (\<lambda>data line. case extractPathAndHash line of
                None \<Rightarrow> data | Some (p, h) \<Rightarrow> AList.update p h data) acc ls))" for acc
    by (induction ls arbitrary: acc) (auto simp: distinct_update split: option.splits)
  from this[of "[]"] show ?thesis by (simp add: parseLines_def keys_def)
qed

lemma has_keys: "has m p \<longleftrightarrow> p \<in> set (keys m)"
  by (simp add: has_def keys_def map_of_eq_None_iff)

text \<open>
  C1. For two parsed manifests, \<open>added\<close> holds exactly the paths of the new manifest that
  the old one lacks, \<open>changed\<close> exactly the paths of both whose hashes differ; the two lists
  share no path, neither repeats a path, and both are sorted in the lexicographic order of
  the paths.
\<close>

theorem diff_added_changed:
  "set (added (parseLines old) (parseLines new)) =
      {p. p \<in> set (keys (parseLines new)) \<and> p \<notin> set (keys (parseLines old))}
   \<and> set (changed (parseLines old) (parseLines new)) =
      {p. p \<in> set (keys (parseLines new)) \<and> p \<in> set (keys (parseLines old))
          \<and> get (parseLines new) p \<noteq> get (parseLines old) p}
   \<and> set (added (parseLines old) (parseLines new))
        \<inter> set (changed (parseLines old) (parseLines new)) = {}
   \<and> distinct (added (parseLines old) (parseLines new))
   \<and> distinct (changed (parseLines old) (parseLines new))
   \<and> sorted (added (parseLines old) (parseLines new))
   \<and> sorted (changed (parseLines old) (parseLines new))"
  using keys_parseLines_distinct[of new]
  by (auto simp: added_def changed_def has_keys)

subsection \<open>Manifests without entries\<close>

lemma parseLines_no_entries:
  "list_all (\<lambda>l. extractPathAndHash l = None) ls \<Longrightarrow> parseLines ls = []"
proof -
  have "list_all (\<lambda>l. extractPathAndHash l = None) ls \<Longrightarrow>
        foldl (\<lambda>data line. case extractPathAndHash line of
                None \<Rightarrow> data | Some (p, h) \<Rightarrow> AList.update p h data) acc ls = acc" for acc
    by (induction ls arbitrary: acc) auto
  then show "list_all (\<lambda>l. extractPathAndHash l = None) ls \<Longrightarrow> parseLines ls = []"
    by (simp add: parseLines_def)
qed

lemma added_empty_old: "added [] newMap = sort (keys newMap)"
  by (simp add: added_def has_def)

lemma changed_empty_old: "changed [] newMap = []"
  by (simp add: changed_def has_def)

lemma diff_empty_new: "added oldMap [] = [] \<and> changed oldMap [] = []"
  by (simp add: added_def changed_def keys_def)

text \<open>
  C8, as the specification states it, fails: the older manifest of \<open>exampleDir\<close> has no
  line with a hash, it parses to the empty map, and the comparison returns a result in
  which every path of the newer manifest is added.
\<close>

theorem compareVersions_zero_entries_counterexample:
  "lines_of exampleDir ''AssetBundleInfo_9.3.0.20.txt''
      = Some [''not a manifest'', [], ''x.bin @1234'']
   \<and> parseLines [''not a manifest'', [], ''x.bin @1234''] = []
   \<and> compareVersions exampleDir None =
       Inr \<lparr>outFile = ''compare/diff_9.3.0.20_to_9.3.0.170.json'',
            result_new = [''y.bin'', ''z.bin''], result_change = [],
            summary_added = 2, summary_changed = 0,
            verOld = ''9.3.0.20'', verNew = ''9.3.0.170''\<rparr>"
  by code_simp

text \<open>
  C8, amended. Once the two version files are chosen, the comparison fails with a hard
  error when a manifest file cannot be opened. A manifest that opens is never rejected: a
  result is returned for any lines; when the older manifest has no valid entry every path
  of the newer one is added and none is changed, and when the newer manifest has no valid
  entry both lists are empty.
\<close>

theorem compareVersions_zero_entries:
  assumes "listing d = Some filesInDir"
    and "selectVersions (versionFilesOf filesInDir) targetVersion = Inr (newestFile, olderFile)"
  shows "(lines_of d (fileName olderFile) = None \<longrightarrow>
            compareVersions d targetVersion = Inl (OpenFailed (fileName olderFile)))
       \<and> (lines_of d (fileName olderFile) \<noteq> None \<and> lines_of d (fileName newestFile) = None \<longrightarrow>
            compareVersions d targetVersion = Inl (OpenFailed (fileName newestFile)))
       \<and> (\<forall>lo ln. lines_of d (fileName olderFile) = Some lo \<and>
                  lines_of d (fileName newestFile) = Some ln \<and> out_writable d \<longrightarrow>
            (\<exists>r. compareVersions d targetVersion = Inr r
                \<and> result_new r = added (parseLines lo) (parseLines ln)
                \<and> result_change r = changed (parseLines lo) (parseLines ln)
                \<and> (list_all (\<lambda>l. extractPathAndHash l = None) lo \<longrightarrow>
                      result_new r = sort (keys (parseLines ln)) \<and> result_change r = [])
                \<and> (list_all (\<lambda>l. extractPathAndHash l = None) ln \<longrightarrow>
                      result_new r = [] \<and> result_change r = [])))"
  using assms
  by (auto simp: compareVersions_def readFileToAssetMap_def parseLines_no_entries
        added_empty_old changed_empty_old diff_empty_new)

theorem compareVersions_zero_entries_witness:
  "listing exampleDir = Some [''AssetBundleInfo_9.3.0.170.txt'', ''notes.txt'',
                               ''AssetBundleInfo_9.3.0.20.txt'']
   \<and> selectVersions (versionFilesOf [''AssetBundleInfo_9.3.0.170.txt'', ''notes.txt'',
                               ''AssetBundleInfo_9.3.0.20.txt'']) None
       = Inr (\<lparr>fileName = ''AssetBundleInfo_9.3.0.170.txt'', versionKeyOf = [9, 3, 0, 170],
                formattedVersion = ''9.3.0.170''\<rparr>,
              \<lparr>fileName = ''AssetBundleInfo_9.3.0.20.txt'', versionKeyOf = [9, 3, 0, 20],
                formattedVersion = ''9.3.0.20''\<rparr>)
   \<and> list_all (\<lambda>l. extractPathAndHash l = None) [''not a manifest'', [], ''x.bin @1234'']
   \<and> (\<exists>r. compareVersions exampleDir None = Inr r
          \<and> result_new r = sort (keys (parseLines [''z.bin @'' @ hashA, ''y.bin @'' @ hashB]))
          \<and> result_change r = [])"
proof -
  let ?fs = "[''AssetBundleInfo_9.3.0.170.txt'', ''notes.txt'', ''AssetBundleInfo_9.3.0.20.txt'']"
  let ?new = "\<lparr>fileName = ''AssetBundleInfo_9.3.0.170.txt'', versionKeyOf = [9, 3, 0, 170],
                formattedVersion = ''9.3.0.170''\<rparr>"
  let ?old = "\<lparr>fileName = ''AssetBundleInfo_9.3.0.20.txt'', versionKeyOf = [9, 3, 0, 20],
                formattedVersion = ''9.3.0.20''\<rparr>"
  have a: "listing exampleDir = Some ?fs" by (simp add: exampleDir_def)
  have b: "selectVersions (versionFilesOf ?fs) None = Inr (?new, ?old)" by code_simp
  have c: "list_all (\<lambda>l. extractPathAndHash l = None) [''not a manifest'', [], ''x.bin @1234'']"
    by code_simp
  have d: "lines_of exampleDir (fileName ?old) = Some [''not a manifest'', [], ''x.bin @1234'']"
    "lines_of exampleDir (fileName ?new) = Some [''z.bin @'' @ hashA, ''y.bin @'' @ hashB]"
    "out_writable exampleDir"
    by (simp_all add: exampleDir_def)
  from compareVersions_zero_entries[OF a b] c d
  have "\<exists>r. compareVersions exampleDir None = Inr r
          \<and> result_new r = sort (keys (parseLines [''z.bin @'' @ hashA, ''y.bin @'' @ hashB]))
          \<and> result_change r = []"
    by blast
  with a b c show ?thesis by blast
qed

subsection \<open>The fetcher: retries\<close>

declare downloadLoop.simps [simp del]



lemma loop_terminal:
  "attempt < PER_FILE_RETRIES \<Longrightarrow> terminal (net url (Suc attempt)) \<Longrightarrow>
     downloadLoop net url sp attempt b st = (False, st\<lparr>trace := trace st @ [Attempt url]\<rparr>)"
  by (subst downloadLoop.simps) (auto simp: Let_def terminal_def)












lemma main_flat_records_failures:
  "files (main_flat notFound ''http://h/Release/1.0.0.0_x/Android/'' ''/srv/assets/1.0.0.0''
            ''/srv/compare'' ''1.0.0.0'' [''a.png''] emptyDisk)
     ''/srv/compare/failed_downloads_1.0.0.0.txt'' = Some (''a.png'' @ [CHR 0x0A])"
  by code_simp

lemma downloadFile_terminal_first:
  assumes "files st (path_join saveRoot (cleanPathOf f)) = None"
    and "terminal (net (baseUrl @ cleanPathOf f) 1)"
  shows "downloadFile net baseUrl saveRoot f st
     = (False, st\<lparr>trace := trace st @ [Attempt (baseUrl @ cleanPathOf f)]\<rparr>)"
  using assms loop_terminal[where attempt=0]
  by (simp add: downloadFile_def Let_def PER_FILE_RETRIES_def)

text \<open>
  C7, evaluated where the code departs from it: one new path whose download gets a 404.
  \<open>downloadDiffAssets\<close> returns nothing but the state, and in it no file has been written:
  the failed identifier is not persisted, while the entry point of the flat-list variant
  writes it to \<open>failed_downloads_<version>.txt\<close> (\<open>main_flat_records_failures\<close>).
\<close>

theorem downloadDiffAssets_failures_dropped:
  "files (downloadDiffAssets notFound ''http://h/Release/1.0.0.0_x/Android/AssetBundleInfo?t=1''
            ''http://h/Release/0.9.0.0_y/Android/AssetBundleInfo'' ''/srv/analysing/1.0.0.0''
            [''a.png''] [] emptyDisk) = files emptyDisk
   \<and> trace (downloadDiffAssets notFound ''http://h/Release/1.0.0.0_x/Android/AssetBundleInfo?t=1''
            ''http://h/Release/0.9.0.0_y/Android/AssetBundleInfo'' ''/srv/analysing/1.0.0.0''
            [''a.png''] [] emptyDisk) = [Attempt ''http://h/Release/1.0.0.0_x/Android/a.png'']"
proof -
  have t: "terminal (notFound u 1)" for u by (simp add: notFound_def terminal_def)
  have e: "files emptyDisk p = None" for p by (simp add: emptyDisk_def)
  have u: "extractPrefix ''http://h/Release/1.0.0.0_x/Android/AssetBundleInfo?t=1'' @ cleanPathOf ''a.png''
      = ''http://h/Release/1.0.0.0_x/Android/a.png''"
    by code_simp
  show ?thesis
    by (simp add: downloadDiffAssets_def Let_def downloadFile_terminal_first[where st=emptyDisk and net=notFound, OF e t] u)
       (simp add: emptyDisk_def)
qed

subsection \<open>The fetcher: the destination path\<close>

lemma splitOn_nonempty: "splitOn c s \<noteq> []"
  by (induction s) (auto split: list.splits)

lemma splitOn_no_sep: "t \<in> set (splitOn c s) \<Longrightarrow> c \<notin> set t"
  by (induction s arbitrary: t) (auto split: if_splits list.splits)

lemma splitOn_append: "splitOn c (a @ c # b) = splitOn c a @ splitOn c b"
proof (induction a)
  case Nil
  then show ?case by simp
next
  case (Cons x a)
  obtain p ps where "splitOn c a = p # ps" using splitOn_nonempty[of c a] by (cases "splitOn c a") auto
  with Cons show ?case by simp
qed

lemma splitOn_single: "c \<notin> set s \<Longrightarrow> splitOn c s = [s]"
  by (induction s) auto

lemma splitOn_joinSegs:
  "segs \<noteq> [] \<Longrightarrow> \<forall>s\<in>set segs. CHR ''/'' \<notin> set s \<Longrightarrow> splitOn CHR ''/'' (joinSegs segs) = segs"
proof (induction segs rule: joinSegs.induct)
  case 1
  then show ?case by simp
next
  case (2 s)
  then show ?case by (simp add: splitOn_single)
next
  case (3 s t ts)
  then show ?case by (simp add: splitOn_append splitOn_single)
qed

lemma dotsThen_snoc: "dotsThen acc \<Longrightarrow> s \<noteq> ''..'' \<Longrightarrow> dotsThen (acc @ [s])"
  by (induction acc) auto

lemma dotsThen_all_dots: "dotsThen acc \<Longrightarrow> acc \<noteq> [] \<Longrightarrow> last acc = ''..'' \<Longrightarrow> set acc \<subseteq> {''..''}"
proof (induction acc)
  case Nil
  then show ?case by simp
next
  case (Cons s ss)
  show ?case
  proof (cases "ss = []")
    case True
    with Cons.prems show ?thesis by simp
  next
    case False
    with Cons.prems have l: "last ss = ''..''" by simp
    then have "''..'' \<in> set ss" using False last_in_set by metis
    with Cons.prems have "s = ''..''" and "dotsThen ss" by (auto split: if_splits)
    with Cons.IH[OF _ False l] show ?thesis by simp
  qed
qed

lemma dotsThen_snoc_dots: "set acc \<subseteq> {''..''} \<Longrightarrow> dotsThen (acc @ [''..''])"
  by (induction acc) auto

lemma dotsThen_butlast: "dotsThen acc \<Longrightarrow> dotsThen (butlast acc)"
  by (induction acc) (auto dest: in_set_butlastD)

lemma dotsThen_prefix_dots: "dotsThen (acc @ ''..'' # r) \<Longrightarrow> set acc \<subseteq> {''..''}"
  by (induction acc) (auto split: if_splits)

lemma normStep_good:
  assumes "good allow res"
  shows "good allow (normStep allow res seg)"
proof -
  consider (skip) "seg = [] \<or> seg = ''.''"
    | (pop) "seg = ''..''" "res \<noteq> []" "last res \<noteq> ''..''"
    | (up) "seg = ''..''" "res = [] \<or> last res = ''..''" "allow"
    | (stay) "seg = ''..''" "res = [] \<or> last res = ''..''" "\<not> allow"
    | (push) "seg \<noteq> []" "seg \<noteq> ''.''" "seg \<noteq> ''..''"
    by blast
  then show ?thesis
  proof cases
    case skip
    then show ?thesis using assms by (auto simp: normStep_def)
  next
    case pop
    then have "normStep allow res seg = butlast res" by (simp add: normStep_def)
    then show ?thesis using assms by (auto simp: good_def dotsThen_butlast dest: in_set_butlastD)
  next
    case up
    then have n: "normStep allow res seg = res @ [''..'']" by (auto simp: normStep_def)
    have "set res \<subseteq> {''..''}"
    proof (cases "res = []")
      case True
      then show ?thesis by simp
    next
      case False
      with up have "last res = ''..''" by simp
      moreover from assms have "dotsThen res" by (simp add: good_def)
      ultimately show ?thesis using False by (rule dotsThen_all_dots[rotated 2])
    qed
    then show ?thesis using assms up unfolding n by (auto simp: good_def dotsThen_snoc_dots)
  next
    case stay
    then have "normStep allow res seg = res" by (auto simp: normStep_def)
    then show ?thesis using assms by simp
  next
    case push
    then have "normStep allow res seg = res @ [seg]" by (simp add: normStep_def)
    then show ?thesis using assms push by (auto simp: good_def dotsThen_snoc)
  qed
qed

lemma foldl_normStep_good: "good allow acc \<Longrightarrow> good allow (foldl (normStep allow) acc segs)"
  by (induction segs arbitrary: acc) (auto simp: normStep_good)

lemma normSegs_good: "good allow (normSegs allow segs)"
  unfolding normSegs_def by (rule foldl_normStep_good) (simp add: good_def)

lemma normStep_subset: "set (normStep allow res seg) \<subseteq> set res \<union> {seg}"
  by (auto simp: normStep_def dest: in_set_butlastD)

lemma foldl_normStep_subset: "set (foldl (normStep allow) acc segs) \<subseteq> set acc \<union> set segs"
proof (induction segs arbitrary: acc)
  case Nil
  then show ?case by simp
next
  case (Cons s segs)
  from Cons[of "normStep allow acc s"] normStep_subset[of allow acc s]
  show ?case by auto
qed

lemma resolved_no_slash: "s \<in> set (resolved p) \<Longrightarrow> CHR ''/'' \<notin> set s"
  using foldl_normStep_subset[of "\<not> isAbsolute p" "[]" "splitOn CHR ''/'' p"] splitOn_no_sep
  by (auto simp: resolved_def normSegs_def)

lemma foldl_normStep_fix:
  "good allow (acc @ segs) \<Longrightarrow> foldl (normStep allow) acc segs = acc @ segs"
proof (induction segs arbitrary: acc)
  case Nil
  then show ?case by simp
next
  case (Cons s segs)
  have step: "normStep allow acc s = acc @ [s]"
  proof (cases "s = ''..''")
    case True
    with Cons.prems have "allow" and "set acc \<subseteq> {''..''}"
      using dotsThen_prefix_dots[of acc segs] by (auto simp: good_def)
    then have "acc = [] \<or> last acc = ''..''"
    proof (cases "acc = []")
      case True
      then show ?thesis by simp
    next
      case False
      then have "last acc \<in> set acc" by (rule last_in_set)
      with \<open>set acc \<subseteq> {''..''}\<close> show ?thesis by auto
    qed
    with True \<open>allow\<close> show ?thesis by (auto simp: normStep_def)
  next
    case False
    with Cons.prems show ?thesis by (auto simp: normStep_def good_def)
  qed
  from Cons.prems have "good allow ((acc @ [s]) @ segs)" by simp
  from Cons.IH[OF this] step show ?case by simp
qed

lemma normSegs_fix: "good allow segs \<Longrightarrow> normSegs allow segs = segs"
  using foldl_normStep_fix[of allow "[]" segs] by (simp add: normSegs_def)

lemma normSegs_empty_head: "normSegs allow ([] # segs) = normSegs allow segs"
  by (simp add: normSegs_def normStep_def)

lemma normSegs_empty_last: "normSegs allow (segs @ [[]]) = normSegs allow segs"
  by (simp add: normSegs_def normStep_def)

lemma joinSegs_hd:
  "segs \<noteq> [] \<Longrightarrow> \<forall>s\<in>set segs. s \<noteq> [] \<and> CHR ''/'' \<notin> set s \<Longrightarrow>
     joinSegs segs \<noteq> [] \<and> hd (joinSegs segs) \<noteq> CHR ''/''"
proof (induction segs rule: joinSegs.induct)
  case 1
  then show ?case by simp
next
  case (2 s)
  then have "hd s \<noteq> CHR ''/''" using hd_in_set[of s] by fastforce
  with 2 show ?case by simp
next
  case (3 s t ts)
  then have "hd s \<noteq> CHR ''/''" using hd_in_set[of s] by fastforce
  with 3 show ?case by (simp add: hd_append)
qed

lemma resolved_good: "good (\<not> isAbsolute p) (resolved p)"
  by (simp add: resolved_def normSegs_good)

lemma resolved_normalize:
  assumes "p \<noteq> []"
  shows "isAbsolute (path_normalize p) = isAbsolute p
       \<and> resolved (path_normalize p) = resolved p"
proof (cases "resolved p = []")
  case True
  then have "path_normalize p = (if isAbsolute p then ''/''
      else if last p = CHR ''/'' then ''./'' else ''.'')"
    using assms by (simp add: path_normalize_def Let_def)
  then show ?thesis using True
    by (auto simp: isAbsolute_def resolved_def normSegs_def normStep_def)
next
  case False
  let ?segs = "resolved p"
  let ?j = "joinSegs ?segs"
  have ns: "\<forall>s\<in>set ?segs. CHR ''/'' \<notin> set s" using resolved_no_slash by blast
  have g: "good (\<not> isAbsolute p) ?segs" by (rule resolved_good)
  then have ne: "\<forall>s\<in>set ?segs. s \<noteq> [] \<and> CHR ''/'' \<notin> set s" using ns by (auto simp: good_def)
  from joinSegs_hd[OF False ne] have j: "?j \<noteq> []" and h: "hd ?j \<noteq> CHR ''/''" by auto
  have sp: "splitOn CHR ''/'' ?j = ?segs" by (rule splitOn_joinSegs[OF False ns])
  have sp2: "splitOn CHR ''/'' (?j @ ''/'') = ?segs @ [[]]"
    using splitOn_append[of "CHR ''/''" ?j "[]"] sp by simp
  have fx: "normSegs (\<not> isAbsolute p) ?segs = ?segs" by (rule normSegs_fix[OF g])
  have pn: "path_normalize p = (if isAbsolute p then ''/'' else []) @ ?j
      @ (if last p = CHR ''/'' then ''/'' else [])"
    using assms j by (simp add: path_normalize_def Let_def)
  have abs: "isAbsolute (path_normalize p) = isAbsolute p"
    unfolding pn using j h by (auto simp: isAbsolute_def hd_append)
  have "splitOn CHR ''/'' (path_normalize p) =
      (if isAbsolute p then [[]] else []) @ ?segs @ (if last p = CHR ''/'' then [[]] else [])"
    unfolding pn using sp sp2 by auto
  then have "resolved (path_normalize p) = ?segs"
    unfolding resolved_def[of "path_normalize p"] abs
    using fx by (auto simp: normSegs_empty_head normSegs_empty_last)
  with abs show ?thesis by simp
qed

lemma foldl_normStep_no_dots:
  "''..'' \<notin> set segs \<Longrightarrow>
     foldl (normStep allow) acc segs = acc @ filter (\<lambda>s. s \<noteq> [] \<and> s \<noteq> ''.'') segs"
  by (induction segs arbitrary: acc) (auto simp: normStep_def)

lemma resolved_join:
  assumes "root \<noteq> []" and "''..'' \<notin> set (splitOn CHR ''/'' b)"
  shows "isAbsolute (root @ CHR ''/'' # b) = isAbsolute root
       \<and> prefix (resolved root) (resolved (root @ CHR ''/'' # b))"
proof -
  have a: "isAbsolute (root @ CHR ''/'' # b) = isAbsolute root"
    using assms(1) by (simp add: isAbsolute_def)
  have "resolved (root @ CHR ''/'' # b) =
      foldl (normStep (\<not> isAbsolute root)) (resolved root) (splitOn CHR ''/'' b)"
    unfolding resolved_def a by (simp add: normSegs_def splitOn_append)
  then show ?thesis using a assms(2) by (simp add: foldl_normStep_no_dots)
qed

lemma cleanPathOf_no_dots:
  "''..'' \<notin> set (splitOn CHR ''/'' assetPath) \<Longrightarrow> ''..'' \<notin> set (splitOn CHR ''/'' (cleanPathOf assetPath))"
  by (cases assetPath) (auto simp: cleanPathOf_def startsWith_def split: if_splits)

text \<open>
  C9, amended. When no segment of the object identifier is \<open>..\<close>, the destination path
  lies inside the destination root: it is absolute exactly when the root is, and the
  segments of the root begin its segments. (One leading \<open>/\<close> of the identifier is removed;
  an identifier with \<open>..\<close> segments is neither rejected nor confined.)
\<close>

theorem savePath_inside_root:
  assumes "''..'' \<notin> set (splitOn CHR ''/'' assetPath)" and "saveRoot \<noteq> []"
  shows "insideRoot saveRoot (savePathOf saveRoot assetPath)"
proof -
  let ?b = "cleanPathOf assetPath"
  let ?joined = "if ?b = [] then saveRoot else saveRoot @ CHR ''/'' # ?b"
  have j: "?joined \<noteq> []" using assms(2) by simp
  have sp: "savePathOf saveRoot assetPath = path_normalize ?joined"
    using assms(2) by (simp add: savePathOf_def path_join_def Let_def)
  have "isAbsolute ?joined = isAbsolute saveRoot \<and> prefix (resolved saveRoot) (resolved ?joined)"
    using resolved_join[OF assms(2) cleanPathOf_no_dots[OF assms(1)]] by simp
  with resolved_normalize[OF j] show ?thesis
    unfolding insideRoot_def sp by simp
qed

theorem savePath_inside_root_witness:
  "''..'' \<notin> set (splitOn CHR ''/'' ''/sound/./bgm001.acb'') \<and> ''/srv/new'' \<noteq> []
   \<and> savePathOf ''/srv/new'' ''/sound/./bgm001.acb'' = ''/srv/new/sound/bgm001.acb''
   \<and> insideRoot ''/srv/new'' ''/srv/new/sound/bgm001.acb''"
proof -
  have a: "''..'' \<notin> set (splitOn CHR ''/'' ''/sound/./bgm001.acb'')" by code_simp
  have b: "''/srv/new'' \<noteq> []" by simp
  have c: "savePathOf ''/srv/new'' ''/sound/./bgm001.acb'' = ''/srv/new/sound/bgm001.acb''"
    by code_simp
  from savePath_inside_root[OF a b] c a b show ?thesis by simp
qed

text \<open>
  C9, as the specification states it, fails: an identifier that the manifest parser accepts
  as a path, with \<open>..\<close> segments behind its first segment, resolves to a destination
  outside the root.
\<close>

theorem savePath_traversal_counterexample:
  "isPathToken ''a/../../../../../etc/cron.d/job''
   \<and> savePathOf ''/srv/analysing/9.3.0.170/new'' ''a/../../../../../etc/cron.d/job''
       = ''/etc/cron.d/job''
   \<and> \<not> insideRoot ''/srv/analysing/9.3.0.170/new''
          (savePathOf ''/srv/analysing/9.3.0.170/new'' ''a/../../../../../etc/cron.d/job'')"
  by code_simp

subsection \<open>Joining segments\<close>

































subsection \<open>Reconciling two trees\<close>

lemma walk_entriesOf: "walk e = map fst (entriesOf e)"
proof (induction e)
  case (File n f)
  then show ?case by simp
next
  case (Dir n cs)
  then have m: "map walk cs = map (\<lambda>c. map fst (entriesOf c)) cs" by simp
  have "concat (map walk cs) = map fst (concat (map entriesOf cs))"
    unfolding m by (simp add: map_concat comp_def)
  then show ?case by (simp add: comp_def)
qed

lemma walkDir_entries: "walkDir es = map fst (entries es)"
proof -
  have "walk = (\<lambda>e. map fst (entriesOf e))" by (rule ext) (rule walk_entriesOf)
  then show ?thesis by (simp add: walkDir_def entries_def map_concat comp_def)
qed

lemma entriesOf_nonempty_path: "x \<in> set (entriesOf e) \<Longrightarrow> fst x \<noteq> []"
  by (cases e) auto

lemma entriesOf_Dir_head: "x \<in> set (entriesOf (Dir n cs)) \<Longrightarrow> \<exists>p. fst x = n # p \<and> p \<noteq> []"
  using entriesOf_nonempty_path by fastforce

lemma concat_filter: "concat (map (\<lambda>c. filter P (f c)) cs) = filter P (concat (map f cs))"
  by (induction cs) auto

lemma unlinkNode_entries:
  "concat (map entriesOf (unlinkNode q e)) = filter (\<lambda>x. fst x \<noteq> q) (entriesOf e)"
proof (induction q e rule: unlinkNode.induct)
  case (1 e)
  have "\<forall>x\<in>set (entriesOf e). fst x \<noteq> []" using entriesOf_nonempty_path by blast
  then show ?case by simp
next
  case (2 s n f)
  then show ?case by simp
next
  case (3 s t r n f)
  then show ?case by simp
next
  case (4 s n cs)
  have "\<forall>x\<in>set (entriesOf (Dir n cs)). fst x \<noteq> [s]"
    using entriesOf_Dir_head[of _ n cs] by fastforce
  then have "filter (\<lambda>x. fst x \<noteq> [s]) (entriesOf (Dir n cs)) = entriesOf (Dir n cs)"
    by (simp only: filter_True)
  then show ?case by simp
next
  case (5 s t r n cs)
  show ?case
  proof (cases "n = s")
    case True
    have "concat (map entriesOf (concat (map (unlinkNode (t # r)) cs)))
        = concat (map (\<lambda>c. concat (map entriesOf (unlinkNode (t # r) c))) cs)"
      by (induction cs) auto
    also have "\<dots> = concat (map (\<lambda>c. filter (\<lambda>x. fst x \<noteq> t # r) (entriesOf c)) cs)"
      using 5[OF True] by (metis (mono_tags, lifting) map_eq_conv)
    also have "\<dots> = filter (\<lambda>x. fst x \<noteq> t # r) (concat (map entriesOf cs))"
      by (rule concat_filter)
    finally show ?thesis using True by (simp add: filter_map comp_def)
  next
    case False
    have "\<forall>x\<in>set (entriesOf (Dir n cs)). fst x \<noteq> s # t # r"
      using entriesOf_Dir_head[of _ n cs] False by fastforce
    then have "filter (\<lambda>x. fst x \<noteq> s # t # r) (entriesOf (Dir n cs)) = entriesOf (Dir n cs)"
      by (simp only: filter_True)
    then show ?thesis using False by simp
  qed
qed

lemma unlinkAt_entries: "entries (unlinkAt q es) = filter (\<lambda>x. fst x \<noteq> q) (entries es)"
proof -
  have "concat (map entriesOf (concat (map (unlinkNode q) es)))
      = concat (map (\<lambda>c. concat (map entriesOf (unlinkNode q c))) es)"
    by (induction es) auto
  then show ?thesis
    by (simp add: entries_def unlinkAt_def unlinkNode_entries concat_filter)
qed

lemma map_of_filter_neq:
  "map_of (filter (\<lambda>x. fst x \<noteq> q) xs) p = (if p = q then None else map_of xs p)"
  by (induction xs) auto

lemma fileAt_unlinkAt: "fileAt (unlinkAt q es) p = (if p = q then None else fileAt es p)"
  by (simp add: fileAt_def unlinkAt_entries map_of_filter_neq)

lemma removeEmptyDirs_entries:
  "entriesLeft (snd (removeEmptyDirs e)) = entriesOf e
   \<and> (fst (removeEmptyDirs e) \<longrightarrow> snd (removeEmptyDirs e) = None)"
proof (induction e)
  case (File n f)
  then show ?case by (simp add: entriesLeft_def)
next
  case (Dir n cs)
  let ?rs = "map removeEmptyDirs cs"
  have each: "\<forall>c\<in>set cs. entriesLeft (snd (removeEmptyDirs c)) = entriesOf c
      \<and> (fst (removeEmptyDirs c) \<longrightarrow> snd (removeEmptyDirs c) = None)"
    using Dir by blast
  have kept: "concat (map entriesOf (List.map_filter snd ?rs)) = concat (map entriesOf cs)"
    using each
  proof (induction cs)
    case Nil
    then show ?case by (simp add: List.map_filter_simps)
  next
    case (Cons c cs)
    then have "entriesLeft (snd (removeEmptyDirs c)) = entriesOf c" by simp
    then show ?case using Cons
      by (cases "snd (removeEmptyDirs c)") (auto simp: List.map_filter_simps entriesLeft_def)
  qed
  show ?case
  proof (cases "cs = [] \<or> list_all fst ?rs")
    case True
    then have "\<forall>c\<in>set cs. entriesOf c = []"
      using each by (auto simp: list_all_iff entriesLeft_def)
    then have "concat (map entriesOf cs) = []" by simp
    then show ?thesis using True by (auto simp: entriesLeft_def Let_def)
  next
    case False
    then show ?thesis using kept by (simp add: entriesLeft_def Let_def)
  qed
qed

lemma fileAfter_removeEmptyDirs:
  "fileAfter (case snd (removeEmptyDirs (Dir n cur)) of Some (Dir n' cs) \<Rightarrow> Some cs | _ \<Rightarrow> None) p
     = fileAt cur p"
proof -
  let ?r = "snd (removeEmptyDirs (Dir n cur))"
  have left: "entriesLeft ?r = entriesOf (Dir n cur)"
    using removeEmptyDirs_entries[of "Dir n cur"] by simp
  have shape: "?r = None \<or> (\<exists>cs. ?r = Some (Dir n cs))"
    by (simp add: Let_def)
  have inj: "map_of (map (\<lambda>e. (n # fst e, snd e)) xs) (n # p) = map_of xs p" for xs :: "(path \<times> finfo) list"
    by (induction xs) auto
  from shape show ?thesis
  proof
    assume n: "?r = None"
    with left have "map (\<lambda>e. (n # fst e, snd e)) (entries cur) = []"
      by (simp add: entriesLeft_def entries_def)
    then have "entries cur = []" by simp
    then show ?thesis using n by (simp add: fileAfter_def fileAt_def)
  next
    assume "\<exists>cs. ?r = Some (Dir n cs)"
    then obtain cs where s: "?r = Some (Dir n cs)" by blast
    with left have "map (\<lambda>e. (n # fst e, snd e)) (entries cs)
        = map (\<lambda>e. (n # fst e, snd e)) (entries cur)"
      by (simp add: entriesLeft_def entries_def)
    then have "map_of (entries cs) p = map_of (entries cur) p"
      using inj[of "entries cs"] inj[of "entries cur"] by simp
    then show ?thesis using s by (simp add: fileAfter_def fileAt_def)
  qed
qed

lemma readRetry_Inr: "readRetry errs b retry = Inr x \<Longrightarrow> x = b"
  by (induction errs b retry rule: readRetry.induct) (auto split: if_splits)

lemma hashFile_Inr: "hashFile md5 f = Inr h \<Longrightarrow> h = md5 (fbytes f)"
  by (auto simp: hashFile_def safeRead_def split: sum.splits dest: readRetry_Inr)

lemma compareOne_other:
  "compareOne md5 old rel cur = Inr cur' \<Longrightarrow> p \<noteq> rel \<Longrightarrow> fileAt cur' p = fileAt cur p"
  by (auto simp: compareOne_def fileAt_unlinkAt
      split: option.splits sum.splits if_splits unlink_result.splits)

lemma compareOne_mono:
  "compareOne md5 old rel cur = Inr cur' \<Longrightarrow> fileAt cur' p = None \<or> fileAt cur' p = fileAt cur p"
  by (auto simp: compareOne_def fileAt_unlinkAt
      split: option.splits sum.splits if_splits unlink_result.splits)

lemma compareOne_keeps:
  assumes "compareOne md5 old p cur = Inr cur'" and "fileAt cur p = Some fn"
    and "relativeMap old p = None
         \<or> (\<exists>fo. relativeMap old p = Some fo
               \<and> (md5 (fbytes fo) \<noteq> md5 (fbytes fn) \<or> safeDelete fn = StillBusy))"
  shows "fileAt cur' p = Some fn"
  using assms
  by (auto simp: compareOne_def
      split: option.splits sum.splits if_splits unlink_result.splits dest!: hashFile_Inr)

lemma compareOne_deletes:
  assumes "compareOne md5 old p cur = Inr cur'" and "fileAt cur p = Some fn"
    and "relativeMap old p = Some fo" and "md5 (fbytes fo) = md5 (fbytes fn)"
    and "safeDelete fn = Deleted"
  shows "fileAt cur' p = None"
  using assms
  by (auto simp: compareOne_def fileAt_unlinkAt
      split: option.splits sum.splits if_splits unlink_result.splits dest!: hashFile_Inr)

lemma compareAll_mono:
  "compareAll md5 old rels cur = Inr cur' \<Longrightarrow> fileAt cur' p = None \<or> fileAt cur' p = fileAt cur p"
proof (induction rels arbitrary: cur)
  case Nil
  then show ?case by simp
next
  case (Cons rel rels)
  then obtain c1 where 1: "compareOne md5 old rel cur = Inr c1"
    and 2: "compareAll md5 old rels c1 = Inr cur'"
    by (auto split: sum.splits)
  from Cons.IH[OF 2] compareOne_mono[OF 1, of p] show ?case by auto
qed

lemma compareAll_keeps:
  assumes "compareAll md5 old rels cur = Inr cur'" and "fileAt cur p = Some fn"
    and "relativeMap old p = None
         \<or> (\<exists>fo. relativeMap old p = Some fo
               \<and> (md5 (fbytes fo) \<noteq> md5 (fbytes fn) \<or> safeDelete fn = StillBusy))"
  shows "fileAt cur' p = Some fn"
  using assms(1,2)
proof (induction rels arbitrary: cur)
  case Nil
  then show ?case by simp
next
  case (Cons rel rels)
  then obtain c1 where 1: "compareOne md5 old rel cur = Inr c1"
    and 2: "compareAll md5 old rels c1 = Inr cur'"
    by (auto split: sum.splits)
  have "fileAt c1 p = Some fn"
  proof (cases "p = rel")
    case True
    from 1 True have "compareOne md5 old p cur = Inr c1" by simp
    from compareOne_keeps[OF this Cons.prems(2) assms(3)] show ?thesis .
  next
    case False
    with compareOne_other[OF 1] Cons.prems(2) show ?thesis by simp
  qed
  from Cons.IH[OF 2 this] show ?case .
qed

lemma compareAll_deletes:
  assumes "compareAll md5 old rels cur = Inr cur'" and "p \<in> set rels"
    and "fileAt cur p = Some fn"
    and "relativeMap old p = Some fo" and "md5 (fbytes fo) = md5 (fbytes fn)"
    and "safeDelete fn = Deleted"
  shows "fileAt cur' p = None"
  using assms(1,2,3)
proof (induction rels arbitrary: cur)
  case Nil
  then show ?case by simp
next
  case (Cons rel rels)
  then obtain c1 where 1: "compareOne md5 old rel cur = Inr c1"
    and 2: "compareAll md5 old rels c1 = Inr cur'"
    by (auto split: sum.splits)
  show ?case
  proof (cases "p = rel")
    case True
    from 1 True have "compareOne md5 old p cur = Inr c1" by simp
    from compareOne_deletes[OF this Cons.prems(3) assms(4,5,6)]
    have "fileAt c1 p = None" .
    with compareAll_mono[OF 2, of p] show ?thesis by auto
  next
    case False
    with compareOne_other[OF 1] Cons.prems(3) have "fileAt c1 p = Some fn" by simp
    moreover from False Cons.prems(2) have "p \<in> set rels" by simp
    ultimately show ?thesis using Cons.IH[OF 2] by blast
  qed
qed

text \<open>
  C4, amended. When the reconciliation returns, for every file \<open>fn\<close> at a path \<open>p\<close> of the
  candidate tree (a path that \<open>walkDir\<close> lists): if the reference tree has a file at \<open>p\<close>
  with an equal content hash and \<open>unlink\<close> succeeds within the five tries of \<open>safeDelete\<close>,
  the candidate file is gone afterwards; if the hashes are equal and the file is still
  busy after five tries it is kept; if the hashes differ it is kept; and a file at a path
  that only the candidate tree has is kept. Pruning the empty directories changes no file.
  Nothing is returned.
\<close>

theorem removeUnchangedFiles_files:
  assumes "removeUnchangedFiles md5 oldEntries newEntries = Inr r"
    and "fileAt newEntries p = Some fn"
  shows "p \<in> set (walkDir newEntries)
       \<and> (\<forall>fo. relativeMap oldEntries p = Some fo \<and> md5 (fbytes fo) = md5 (fbytes fn)
                \<and> safeDelete fn = Deleted \<longrightarrow> fileAfter r p = None)
       \<and> (\<forall>fo. relativeMap oldEntries p = Some fo \<and> md5 (fbytes fo) = md5 (fbytes fn)
                \<and> safeDelete fn = StillBusy \<longrightarrow> fileAfter r p = Some fn)
       \<and> (\<forall>fo. relativeMap oldEntries p = Some fo \<and> md5 (fbytes fo) \<noteq> md5 (fbytes fn)
                \<longrightarrow> fileAfter r p = Some fn)
       \<and> (relativeMap oldEntries p = None \<longrightarrow> fileAfter r p = Some fn)"
proof -
  from assms(1) obtain cur where c: "compareAll md5 oldEntries (walkDir newEntries) newEntries = Inr cur"
    and r: "r = (case snd (removeEmptyDirs (Dir ''change'' cur)) of
                   Some (Dir n cs) \<Rightarrow> Some cs | _ \<Rightarrow> None)"
    by (auto simp: removeUnchangedFiles_def split: sum.splits option.splits node.splits)
  have after: "fileAfter r p = fileAt cur p"
    unfolding r by (rule fileAfter_removeEmptyDirs)
  have mem: "p \<in> set (walkDir newEntries)"
    using assms(2) by (auto simp: walkDir_entries fileAt_def dest: map_of_SomeD intro: rev_image_eqI)
  have del: "\<forall>fo. relativeMap oldEntries p = Some fo \<and> md5 (fbytes fo) = md5 (fbytes fn)
                \<and> safeDelete fn = Deleted \<longrightarrow> fileAfter r p = None"
    unfolding after using compareAll_deletes[OF c mem assms(2)] by blast
  have busy: "\<forall>fo. relativeMap oldEntries p = Some fo \<and> md5 (fbytes fo) = md5 (fbytes fn)
                \<and> safeDelete fn = StillBusy \<longrightarrow> fileAfter r p = Some fn"
    unfolding after using compareAll_keeps[OF c assms(2)] by blast
  have diff: "\<forall>fo. relativeMap oldEntries p = Some fo \<and> md5 (fbytes fo) \<noteq> md5 (fbytes fn)
                \<longrightarrow> fileAfter r p = Some fn"
    unfolding after using compareAll_keeps[OF c assms(2)] by blast
  have only: "relativeMap oldEntries p = None \<longrightarrow> fileAfter r p = Some fn"
    unfolding after using compareAll_keeps[OF c assms(2)] by blast
  show ?thesis by (rule conjI[OF mem conjI[OF del conjI[OF busy conjI[OF diff only]]]])
qed

text \<open>
  C4, as the specification states it, fails: \<open>c.txt\<close> has the same bytes, hence the same
  hash, in both trees, but its \<open>unlink\<close> raises \<open>EBUSY\<close> five times; \<open>safeDelete\<close> gives up
  with a warning and the candidate file is still there after the reconciliation.
\<close>

theorem removeUnchangedFiles_locked_counterexample:
  "relativeMap oldTree [''c.txt''] = Some (plain ''text'')
   \<and> fileAt newTree [''c.txt''] = Some (locked ''text'')
   \<and> id (fbytes (plain ''text'')) = id (fbytes (locked ''text''))
   \<and> removeUnchangedFiles id oldTree newTree
       = Inr (Some [Dir ''img'' [File ''b.png'' (plain ''new'')],
                    File ''c.txt'' (locked ''text''),
                    Dir ''snd'' [File ''d.wav'' (plain ''only new'')]])
   \<and> fileAfter (Some [Dir ''img'' [File ''b.png'' (plain ''new'')],
                       File ''c.txt'' (locked ''text''),
                       Dir ''snd'' [File ''d.wav'' (plain ''only new'')]]) [''c.txt'']
       = Some (locked ''text'')"
  by code_simp

theorem removeUnchangedFiles_files_witness:
  "removeUnchangedFiles id oldTree newTree
       = Inr (Some [Dir ''img'' [File ''b.png'' (plain ''new'')],
                    File ''c.txt'' (locked ''text''),
                    Dir ''snd'' [File ''d.wav'' (plain ''only new'')]])
   \<and> fileAt newTree [''img'', ''a.png''] = Some (plain ''same'')
   \<and> relativeMap oldTree [''img'', ''a.png''] = Some (plain ''same'')
   \<and> safeDelete (plain ''same'') = Deleted
   \<and> fileAfter (Some [Dir ''img'' [File ''b.png'' (plain ''new'')],
                       File ''c.txt'' (locked ''text''),
                       Dir ''snd'' [File ''d.wav'' (plain ''only new'')]]) [''img'', ''a.png'']
       = None"
proof -
  let ?r = "Some [Dir ''img'' [File ''b.png'' (plain ''new'')],
                  File ''c.txt'' (locked ''text''),
                  Dir ''snd'' [File ''d.wav'' (plain ''only new'')]]"
  have a: "removeUnchangedFiles id oldTree newTree = Inr ?r" by code_simp
  have b: "fileAt newTree [''img'', ''a.png''] = Some (plain ''same'')" by code_simp
  have c: "relativeMap oldTree [''img'', ''a.png''] = Some (plain ''same'')" by code_simp
  have d: "safeDelete (plain ''same'') = Deleted" by code_simp
  from removeUnchangedFiles_files[OF a b] c d
  have "fileAfter ?r [''img'', ''a.png''] = None" by simp
  with a b c d show ?thesis by simp
qed

end
